theory Spec2Isabelle
  imports Complex_Main
begin

section \<open>The launch-guide script\<close>

text \<open>
  The script \<^verbatim>\<open>moltblox_testnet_launch.py\<close> builds a list of flowables (the story) and
  hands it to a PDF library. This section embeds what the script itself defines: its
  colours and paragraph styles, the page callback \<^verbatim>\<open>on_page\<close> and the row builder
  \<^verbatim>\<open>make_step\<close>. Lengths are Python floats in the script; they are exact rationals
  here, and no statement below depends on rounding.
\<close>

subsection \<open>Values the script takes from the library\<close>

text \<open>
  \<^verbatim>\<open>inch\<close> and \<^verbatim>\<open>letter\<close> are constants of the library, not of the script: they are
  parameters of the model. \<^verbatim>\<open>TA_LEFT\<close> and \<^verbatim>\<open>TA_CENTER\<close> are used as names only.
\<close>

record units =
  inch :: rat
  letter :: "rat \<times> rat"

datatype alignment = TA_LEFT | TA_CENTER

subsection \<open>Python's \<^verbatim>\<open>str\<close> of an integer\<close>

definition digit :: "nat \<Rightarrow> char" where
  "digit n = char_of (48 + n)"

function str_nat :: "nat \<Rightarrow> string" where
  "str_nat n = (if n < 10 then [digit n] else str_nat (n div 10) @ [digit (n mod 10)])"
  by pat_completeness auto
termination
  by (relation "measure id") auto

declare str_nat.simps [simp del]

definition str_int :: "int \<Rightarrow> string" where
  "str_int i = (if i < 0 then CHR ''-'' # str_nat (nat (- i)) else str_nat (nat i))"

subsection \<open>Colours\<close>

datatype color = HexColor string

definition DARK :: color where "DARK = HexColor ''#0a0a0a''"
definition CARD :: color where "CARD = HexColor ''#141414''"
definition TEAL :: color where "TEAL = HexColor ''#00D9A6''"
definition TEAL_DIM :: color where "TEAL_DIM = HexColor ''#0D3D35''"
definition WHITE :: color where "WHITE = HexColor ''#FFFFFF''"
definition GREY :: color where "GREY = HexColor ''#999999''"
definition LIGHT_GREY :: color where "LIGHT_GREY = HexColor ''#666666''"
definition BORDER :: color where "BORDER = HexColor ''#2a2a2a''"
definition SECTION_BG :: color where "SECTION_BG = HexColor ''#1a1a1a''"
definition AMBER :: color where "AMBER = HexColor ''#ffb74d''"
definition CORAL :: color where "CORAL = HexColor ''#ff6b6b''"

subsection \<open>Paragraph styles\<close>

text \<open>
  A \<^verbatim>\<open>ParagraphStyle(name, **kw)\<close> is the record of the keywords the script passes;
  \<open>None\<close> is a keyword it does not pass (the library's default then applies).
\<close>

record paragraph_style =
  style_name :: string
  fontName :: "string option"
  fontSize :: "rat option"
  leading :: "rat option"
  textColor :: "color option"
  alignment :: "alignment option"
  spaceBefore :: "rat option"
  spaceAfter :: "rat option"
  backColor :: "color option"
  borderPadding :: "(rat \<times> rat \<times> rat \<times> rat) option"

definition ParagraphStyle :: "string \<Rightarrow> paragraph_style" where
  "ParagraphStyle n =
     \<lparr>style_name = n, fontName = None, fontSize = None, leading = None, textColor = None,
      alignment = None, spaceBefore = None, spaceAfter = None, backColor = None,
      borderPadding = None\<rparr>"

definition title_style :: paragraph_style where
  "title_style = (ParagraphStyle ''Title'')
     \<lparr>fontName := Some ''Helvetica-Bold'', fontSize := Some 28, leading := Some 34,
      textColor := Some WHITE, alignment := Some TA_LEFT\<rparr>"

definition subtitle_style :: paragraph_style where
  "subtitle_style = (ParagraphStyle ''Subtitle'')
     \<lparr>fontName := Some ''Helvetica'', fontSize := Some 11, leading := Some 16,
      textColor := Some GREY, alignment := Some TA_LEFT\<rparr>"

definition section_style :: paragraph_style where
  "section_style = (ParagraphStyle ''Section'')
     \<lparr>fontName := Some ''Helvetica-Bold'', fontSize := Some 16, leading := Some 22,
      textColor := Some TEAL, alignment := Some TA_LEFT, spaceBefore := Some 20,
      spaceAfter := Some 8\<rparr>"

definition step_title_style :: paragraph_style where
  "step_title_style = (ParagraphStyle ''StepTitle'')
     \<lparr>fontName := Some ''Helvetica-Bold'', fontSize := Some 11, leading := Some 15,
      textColor := Some WHITE\<rparr>"

definition step_body_style :: paragraph_style where
  "step_body_style = (ParagraphStyle ''StepBody'')
     \<lparr>fontName := Some ''Helvetica'', fontSize := Some 9, leading := Some 13,
      textColor := Some GREY\<rparr>"

definition note_style :: paragraph_style where
  "note_style = (ParagraphStyle ''Note'')
     \<lparr>fontName := Some ''Helvetica-Oblique'', fontSize := Some 8, leading := Some 11,
      textColor := Some LIGHT_GREY\<rparr>"

definition code_style :: paragraph_style where
  "code_style = (ParagraphStyle ''Code'')
     \<lparr>fontName := Some ''Courier'', fontSize := Some 8, leading := Some 11,
      textColor := Some TEAL, backColor := Some (HexColor ''#111111''),
      borderPadding := Some (4, 6, 4, 6)\<rparr>"

definition owner_you_style :: paragraph_style where
  "owner_you_style = (ParagraphStyle ''OwnerYou'')
     \<lparr>fontName := Some ''Helvetica-Bold'', fontSize := Some 8, leading := Some 10,
      textColor := Some AMBER\<rparr>"

definition owner_claude_style :: paragraph_style where
  "owner_claude_style = (ParagraphStyle ''OwnerClaude'')
     \<lparr>fontName := Some ''Helvetica-Bold'', fontSize := Some 8, leading := Some 10,
      textColor := Some TEAL\<rparr>"

definition footer_style :: paragraph_style where
  "footer_style = (ParagraphStyle ''Footer'')
     \<lparr>fontName := Some ''Helvetica'', fontSize := Some 7, leading := Some 9,
      textColor := Some LIGHT_GREY, alignment := Some TA_CENTER\<rparr>"

subsection \<open>Flowables\<close>

text \<open>
  The flowables the script constructs. A table cell holds one flowable or a list of
  them (\<^verbatim>\<open>content_parts\<close>); a table carries its data, its column widths and the
  commands of the \<^verbatim>\<open>TableStyle\<close> set on it. A cell range is a pair of
  (column, row) pairs, negative indices counting from the end as in the script.
\<close>

type_synonym cellref = "int \<times> int"

datatype table_cmd =
    VALIGN cellref cellref string
  | TOPPADDING cellref cellref rat
  | BOTTOMPADDING cellref cellref rat
  | LEFTPADDING cellref cellref rat
  | LINEBELOW cellref cellref rat color

datatype flowable =
    Paragraph string paragraph_style
  | Spacer rat rat
  | PageBreak
  | Table "cell list list" "rat list" "table_cmd list"
and cell =
    Flow flowable
  | Flows "flowable list"

fun setStyle :: "flowable \<Rightarrow> table_cmd list \<Rightarrow> flowable" where
  "setStyle (Table d ws cs) cmds = Table d ws (cs @ cmds)"
| "setStyle f cmds = f"

fun table_data :: "flowable \<Rightarrow> cell list list" where
  "table_data (Table d ws cs) = d"
| "table_data f = []"

subsection \<open>\<^verbatim>\<open>make_step\<close>\<close>

text \<open>
  \<^verbatim>\<open>if body:\<close> and \<^verbatim>\<open>if code:\<close> are Python truth tests: a string is true when it is
  not empty, \<^verbatim>\<open>None\<close> is false. The check-box glyph U+2610 is written as the three
  bytes of its UTF-8 encoding.
\<close>

definition truthy :: "string option \<Rightarrow> bool" where
  "truthy c = (case c of None \<Rightarrow> False | Some s \<Rightarrow> s \<noteq> [])"

definition make_step ::
  "units \<Rightarrow> int \<Rightarrow> string \<Rightarrow> string \<Rightarrow> string \<Rightarrow> string option \<Rightarrow> flowable" where
  \<open>make_step u num title body owner code =
     (let owner_tag =
            (if owner = ''you'' then Paragraph ''YOU'' owner_you_style
             else Paragraph ''CLAUDE'' owner_claude_style);
          step_num =
            Paragraph (''<font color="#00D9A6"><b>'' @ str_int num @ ''</b></font>'')
              ((ParagraphStyle ''Num'')
                 \<lparr>fontName := Some ''Helvetica-Bold'', fontSize := Some 14,
                  textColor := Some TEAL, alignment := Some TA_CENTER\<rparr>);
          content_parts =
            [Paragraph title step_title_style]
            @ (if body \<noteq> [] then [Spacer 1 3, Paragraph body step_body_style] else [])
            @ (if truthy code
               then [Spacer 1 4,
                     Paragraph (''<font face="Courier" color="#00D9A6" size="8">''
                                @ the code @ ''</font>'') code_style]
               else []);
          checkbox =
            Paragraph (''<font size="14" color="#2a2a2a">''
                       @ [char_of (226::nat), char_of (152::nat), char_of (144::nat)]
                       @ ''</font>'')
              ((ParagraphStyle ''CB'')
                 \<lparr>fontSize := Some 14, textColor := Some BORDER,
                  alignment := Some TA_CENTER\<rparr>);
          data = [[Flow checkbox, Flow step_num, Flows content_parts, Flow owner_tag]];
          t = Table data
                [35 / 100 * inch u, 45 / 100 * inch u, 51 / 10 * inch u, 7 / 10 * inch u] []
      in setStyle t
           [VALIGN (0, 0) (- 1, - 1) ''TOP'',
            TOPPADDING (0, 0) (- 1, - 1) 8,
            BOTTOMPADDING (0, 0) (- 1, - 1) 8,
            LEFTPADDING (0, 0) (0, 0) 4,
            LINEBELOW (0, 0) (- 1, - 1) (1 / 2) BORDER])\<close>

subsection \<open>The page callback \<^verbatim>\<open>on_page\<close>\<close>

text \<open>
  The canvas object is the library's. The model keeps of it the current graphics state,
  the stack of saved states and the log of the calls made on it. \<^verbatim>\<open>saveState\<close> pushes
  the current state; \<^verbatim>\<open>restoreState\<close> pops it, and fails on an empty stack. What any
  other call does to the current graphics state is the library's business and is the
  parameter \<open>eff\<close>; such a call leaves the stack of saved states alone. The second
  argument of the callback is the document template, of which the callback reads the
  field \<^verbatim>\<open>page\<close>; the record is extensible, so a document carries whatever else it has.
\<close>

datatype canvas_call =
    SetFillColor color
  | Rect rat rat rat rat int int
  | SetFont string rat
  | DrawCentredString rat rat string
  | DrawRightString rat rat string

record 'g canvas =
  gstate :: 'g
  saved :: "'g list"
  calls :: "canvas_call list"

record doc =
  page :: int

definition saveState :: "('g, 'z) canvas_scheme \<Rightarrow> ('g, 'z) canvas_scheme" where
  "saveState c = c\<lparr>saved := gstate c # saved c\<rparr>"

definition restoreState :: "('g, 'z) canvas_scheme \<Rightarrow> ('g, 'z) canvas_scheme option" where
  "restoreState c =
     (case saved c of [] \<Rightarrow> None | g # gs \<Rightarrow> Some (c\<lparr>gstate := g, saved := gs\<rparr>))"

definition call ::
  "(canvas_call \<Rightarrow> 'g \<Rightarrow> 'g) \<Rightarrow> canvas_call \<Rightarrow> ('g, 'z) canvas_scheme \<Rightarrow> ('g, 'z) canvas_scheme" where
  "call eff k c = c\<lparr>gstate := eff k (gstate c), calls := calls c @ [k]\<rparr>"

definition on_page ::
  "units \<Rightarrow> (canvas_call \<Rightarrow> 'g \<Rightarrow> 'g) \<Rightarrow> ('g, 'z) canvas_scheme \<Rightarrow> 'a doc_scheme
     \<Rightarrow> ('g, 'z) canvas_scheme option" where
  "on_page u eff canvas_obj doc =
     (let c = saveState canvas_obj;
          c = call eff (SetFillColor DARK) c;
          c = call eff (Rect 0 0 (fst (letter u)) (snd (letter u)) 1 0) c;
          c = call eff (SetFillColor LIGHT_GREY) c;
          c = call eff (SetFont ''Helvetica'' 7) c;
          c = call eff (DrawCentredString (fst (letter u) / 2) (4 / 10 * inch u)
                 ''Moltblox Testnet Launch Guide | Halldon Inc. | Confidential'') c;
          c = call eff (DrawRightString (fst (letter u) - 75 / 100 * inch u) (4 / 10 * inch u)
                 (''Page '' @ str_int (page doc))) c
      in restoreState c)"

text \<open>The calls \<^verbatim>\<open>on_page\<close> makes between its save and its restore, for page number \<open>n\<close>.\<close>

definition page_calls :: "units \<Rightarrow> int \<Rightarrow> canvas_call list" where
  "page_calls u n =
     [SetFillColor DARK,
      Rect 0 0 (fst (letter u)) (snd (letter u)) 1 0,
      SetFillColor LIGHT_GREY,
      SetFont ''Helvetica'' 7,
      DrawCentredString (fst (letter u) / 2) (4 / 10 * inch u)
        ''Moltblox Testnet Launch Guide | Halldon Inc. | Confidential'',
      DrawRightString (fst (letter u) - 75 / 100 * inch u) (4 / 10 * inch u)
        (''Page '' @ str_int n)]"

section \<open>The text measurer of the specification\<close>

text \<open>
  The script wraps no text itself: it hands strings and styles to the library. The
  specification describes the component that does the wrapping, its Text Measurer
  (section 4.2). The definitions of this section follow the specification's words; the
  glyph widths, which the specification takes from outside, are a parameter.
\<close>

text \<open>
  Modelled from the spec: the Style record of section 3, after resolution: font family,
  size, leading, fill colour, alignment, padding box (top, right, bottom, left), optional
  background colour and optional border. The script has no such record.
\<close>

record resolved_style =
  rs_family :: string
  rs_size :: rat
  rs_leading :: rat
  rs_fill :: color
  rs_alignment :: alignment
  rs_padding :: "rat \<times> rat \<times> rat \<times> rat"
  rs_background :: "color option"
  rs_border :: "(rat \<times> color) option"

text \<open>
  Modelled from the spec: the width of a string is the sum of the widths of its glyphs,
  given by the glyph-width function the core receives (section 1, out of scope).
\<close>

definition text_width ::
  "(resolved_style \<Rightarrow> char \<Rightarrow> rat) \<Rightarrow> resolved_style \<Rightarrow> string \<Rightarrow> rat" where
  "text_width gw st s = sum_list (map (gw st) s)"

text \<open>
  Modelled from the spec: the words of a text. The specification speaks of words without
  defining them; here a word is a maximal run of characters other than the space.
  \<open>words_from cur cs\<close> reads \<open>cs\<close> with the word \<open>cur\<close> begun.
\<close>

fun words_from :: "string \<Rightarrow> string \<Rightarrow> string list" where
  "words_from cur [] = (if cur = [] then [] else [cur])"
| "words_from cur (c # cs) =
     (if c = CHR '' ''
      then (if cur = [] then words_from [] cs else cur # words_from [] cs)
      else words_from (cur @ [c]) cs)"

text \<open>
  Modelled from the spec: the words of a text, read from its start.
\<close>

definition split_words :: "string \<Rightarrow> string list" where
  "split_words t = words_from [] t"

text \<open>
  Modelled from the spec: greedy wrapping (section 4.2): ``accumulate words until the next
  word would exceed \<^verbatim>\<open>maxWidth\<close>, then start a new line; a single word wider than
  \<^verbatim>\<open>maxWidth\<close> occupies its own line unshortened''. \<open>fill_lines w mx line xs\<close> has the
  line \<open>line\<close> begun and the words \<open>xs\<close> to place; the words of a line are joined by one
  space, and \<open>w\<close> measures a line's text.
\<close>

fun fill_lines :: "(string \<Rightarrow> rat) \<Rightarrow> rat \<Rightarrow> string \<Rightarrow> string list \<Rightarrow> string list" where
  "fill_lines w mx line [] = [line]"
| "fill_lines w mx line (x # xs) =
     (if w (line @ '' '' @ x) \<le> mx
      then fill_lines w mx (line @ '' '' @ x) xs
      else line # fill_lines w mx x xs)"

text \<open>
  Modelled from the spec: the wrapped lines of a list of words (section 4.2); a text
  without words has no line.
\<close>

definition wrap :: "(string \<Rightarrow> rat) \<Rightarrow> rat \<Rightarrow> string list \<Rightarrow> string list" where
  "wrap w mx ws = (case ws of [] \<Rightarrow> [] | x # xs \<Rightarrow> fill_lines w mx x xs)"

text \<open>
  Modelled from the spec: the contract
  \<^verbatim>\<open>measure(text, resolvedStyle, maxWidth) -> sequence of (lineText, lineWidth, lineHeight)\<close>
  of section 4.2, with \<^verbatim>\<open>lineHeight\<close> the style's leading. (The name \<open>measure\<close> is taken
  in HOL.)
\<close>

definition measure_lines ::
  "(resolved_style \<Rightarrow> char \<Rightarrow> rat) \<Rightarrow> string \<Rightarrow> resolved_style \<Rightarrow> rat
     \<Rightarrow> (string \<times> rat \<times> rat) list" where
  "measure_lines gw t st mx =
     map (\<lambda>l. (l, text_width gw st l, rs_leading st))
       (wrap (text_width gw st) mx (split_words t))"

text \<open>
  Notions for stating what the measurer does: the text of a line made of given words, a
  word, a line, and a list of lines in which every break is forced (the first word of
  the next line would not have fitted on the line before it).
\<close>

fun join_words :: "string list \<Rightarrow> string" where
  "join_words [] = []"
| "join_words [x] = x"
| "join_words (x # y # ys) = x @ '' '' @ join_words (y # ys)"

definition is_word :: "string \<Rightarrow> bool" where
  "is_word x = (x \<noteq> [] \<and> CHR '' '' \<notin> set x)"

definition is_line :: "string \<Rightarrow> bool" where
  "is_line l = (split_words l \<noteq> [] \<and> l = join_words (split_words l))"

fun greedy_breaks :: "(string \<Rightarrow> rat) \<Rightarrow> rat \<Rightarrow> string list \<Rightarrow> bool" where
  "greedy_breaks w mx (l # l' # ls) =
     (mx < w (l @ '' '' @ hd (split_words l')) \<and> greedy_breaks w mx (l' # ls))"
| "greedy_breaks w mx ls = True"

text \<open>A body-text style for the examples: Helvetica 9 on 13.\<close>

definition body_style :: resolved_style where
  "body_style =
     \<lparr>rs_family = ''Helvetica'', rs_size = 9, rs_leading = 13, rs_fill = GREY,
      rs_alignment = TA_LEFT, rs_padding = (0, 0, 0, 0), rs_background = None,
      rs_border = None\<rparr>"

section \<open>The flow engine of the specification\<close>

text \<open>
  The script places nothing on pages: it hands its story to the library's document
  template. The specification describes the engine that does (sections 4.3 to 4.5 and 7).
  The definitions of this section follow the specification's words.
\<close>

text \<open>
  Modelled from the spec: the table style of a Table block (section 3), as far as the
  layout reads it: the vertical padding of a row (section 4.4, ``plus the row's vertical
  padding'') and whether the first row is a header marked repeatable.
\<close>

record table_style =
  ts_row_padding :: rat
  ts_repeat_header :: bool

text \<open>
  Modelled from the spec: the ContentBlock variant of section 3,
  \<^verbatim>\<open>Paragraph(text, style)\<close>, \<^verbatim>\<open>Spacer(height)\<close>, \<^verbatim>\<open>Rule(thickness, color)\<close>,
  \<^verbatim>\<open>Table(rows, columnWidths, tableStyle)\<close> and \<^verbatim>\<open>PageBreak\<close>. A row is a list of cells
  and a cell a list of nested blocks. The constructors carry the suffix \<open>B\<close>, the plain
  names being those of the script's flowables. Styles are resolved before layout begins
  (section 6).
\<close>

datatype block =
    ParagraphB string resolved_style
  | SpacerB rat
  | RuleB rat color
  | TableB "block list list list" "rat list" table_style
  | PageBreakB

text \<open>
  Modelled from the spec: what the core receives from outside (section 1): the glyph
  widths, and the vertical margin of a rule, which section 4.3 adds to its thickness
  without giving its value.
\<close>

record metrics =
  glyph_width :: "resolved_style \<Rightarrow> char \<Rightarrow> rat"
  rule_margin :: rat

text \<open>
  Modelled from the spec: the page geometry of section 6 (width, height, four margins);
  the content height is the page height minus the top and bottom margins (section 3), the
  available width the page width minus the left and right margins.
\<close>

record geometry =
  page_width :: rat
  page_height :: rat
  margin_top :: rat
  margin_right :: rat
  margin_bottom :: rat
  margin_left :: rat

text \<open>
  Modelled from the spec: the content height, ``page height minus top/bottom margins''
  (section 3).
\<close>

definition content_height :: "geometry \<Rightarrow> rat" where
  "content_height g = page_height g - margin_top g - margin_bottom g"

text \<open>
  Modelled from the spec: the page's available width (section 4.5, step 1), the page width
  minus the left and right margins.
\<close>

definition available_width :: "geometry \<Rightarrow> rat" where
  "available_width g = page_width g - margin_left g - margin_right g"

text \<open>
  Modelled from the spec: the top and bottom of a style's padding box, which is given as
  (top, right, bottom, left).
\<close>

definition padding_top :: "resolved_style \<Rightarrow> rat" where
  "padding_top st = fst (rs_padding st)"

text \<open>
  Modelled from the spec: the bottom of a style's padding box (top, right, bottom, left).
\<close>

definition padding_bottom :: "resolved_style \<Rightarrow> rat" where
  "padding_bottom st = fst (snd (snd (rs_padding st)))"

text \<open>
  Modelled from the spec: Block Layout (section 4.3) and Table Layout (section 4.4), as
  heights. A paragraph's height is its number of wrapped lines times the line height plus
  the padding at top and bottom; a spacer's is its configured height; a rule's its
  thickness plus the vertical margin; a page break's is zero. A table whose column widths
  sum to more than the available width is a configuration error (\<open>None\<close>); otherwise
  a cell's height is the sum of the heights of its nested blocks at the cell's column
  width, and a row's height the maximum of its cells' heights plus the row's vertical
  padding. A cell beyond the last column width has no column and is not laid out (the
  specification does not say).
\<close>

fun block_height :: "metrics \<Rightarrow> rat \<Rightarrow> block \<Rightarrow> rat option"
  and cell_height :: "metrics \<Rightarrow> rat \<Rightarrow> block list \<Rightarrow> rat option"
  and row_height :: "metrics \<Rightarrow> rat list \<Rightarrow> block list list \<Rightarrow> rat option"
  and row_heights :: "metrics \<Rightarrow> rat list \<Rightarrow> rat \<Rightarrow> block list list list \<Rightarrow> rat list option"
where
  "block_height m aw (ParagraphB t st) =
     Some (of_nat (length (measure_lines (glyph_width m) t st aw)) * rs_leading st
           + padding_top st + padding_bottom st)"
| "block_height m aw (SpacerB h) = Some h"
| "block_height m aw (RuleB th c) = Some (th + rule_margin m)"
| "block_height m aw PageBreakB = Some 0"
| "block_height m aw (TableB rows ws ts) =
     (if aw < sum_list ws then None
      else map_option sum_list (row_heights m ws (ts_row_padding ts) rows))"
| "cell_height m w [] = Some 0"
| "cell_height m w (b # bs) =
     (case block_height m w b of
        None \<Rightarrow> None
      | Some h \<Rightarrow> map_option (\<lambda>hs. h + hs) (cell_height m w bs))"
| "row_height m ws [] = Some 0"
| "row_height m [] (c # cs) = Some 0"
| "row_height m (w # ws) (c # cs) =
     (case cell_height m w c of
        None \<Rightarrow> None
      | Some h \<Rightarrow> map_option (max h) (row_height m ws cs))"
| "row_heights m ws pad [] = Some []"
| "row_heights m ws pad (r # rs) =
     (case row_height m ws r of
        None \<Rightarrow> None
      | Some h \<Rightarrow> map_option (\<lambda>hs. (h + pad) # hs) (row_heights m ws pad rs))"

text \<open>
  Modelled from the spec: what the flow engine needs of a laid-out block (section 4.5,
  step 1): a page break, a block that cannot be split with its height, or a table with
  the heights of its rows and its header flag.
\<close>

datatype sized = Break | Fixed rat | Rows "rat list" bool

text \<open>
  Modelled from the spec: step 1 of the per-block rule (section 4.5), ``compute the block's
  height via Block/Table Layout at the page's available width''; \<open>None\<close> is the
  configuration error of a table too wide.
\<close>

fun size_block :: "metrics \<Rightarrow> rat \<Rightarrow> block \<Rightarrow> sized option" where
  "size_block m aw PageBreakB = Some Break"
| "size_block m aw (TableB rows ws ts) =
     (if aw < sum_list ws then None
      else map_option (\<lambda>hs. Rows hs (ts_repeat_header ts))
             (row_heights m ws (ts_row_padding ts) rows))"
| "size_block m aw b = map_option Fixed (block_height m aw b)"

text \<open>
  Modelled from the spec: the errors and the warning of section 7, each with the index
  of the block it is about.
\<close>

datatype layout_error = ConfigurationError nat | SplitError nat

text \<open>
  Modelled from the spec: the \<^verbatim>\<open>LayoutOverflowWarning\<close> of section 7, with the index of the
  block taller than a page.
\<close>

datatype layout_warning = LayoutOverflowWarning nat

text \<open>
  Modelled from the spec: a configuration error is ``surfaced before any page is
  emitted'' (section 7): every block is laid out before the flow starts, and the first
  block that cannot be laid out ends the run.
\<close>

fun layout_all :: "metrics \<Rightarrow> rat \<Rightarrow> nat \<Rightarrow> block list \<Rightarrow> layout_error + sized list" where
  "layout_all m aw i [] = Inr []"
| "layout_all m aw i (b # bs) =
     (case size_block m aw b of
        None \<Rightarrow> Inl (ConfigurationError i)
      | Some z \<Rightarrow>
          (case layout_all m aw (Suc i) bs of
             Inl e \<Rightarrow> Inl e
           | Inr zs \<Rightarrow> Inr (z # zs)))"

text \<open>
  Modelled from the spec: PlacedBox and Page (section 3). The originating block is
  referred to by its index in the input sequence; the box of a piece of a split table also
  says which rows it holds (first row, number of rows, header repeated above them). The
  vertical coordinate is measured from the top of the content area.
\<close>

datatype part = Whole | RowsPart nat nat bool

text \<open>
  Modelled from the spec: PlacedBox (section 3), \<^verbatim>\<open>(x, y, width, height, originating
  ContentBlock reference)\<close>, with the part of the block it holds.
\<close>

record placed_box =
  pb_x :: rat
  pb_y :: rat
  pb_width :: rat
  pb_height :: rat
  pb_block :: nat
  pb_part :: part

text \<open>
  Modelled from the spec: Page (section 3), ``an ordered sequence of PlacedBox plus the
  page's 1-based index''.
\<close>

record page =
  pg_index :: nat
  pg_boxes :: "placed_box list"

text \<open>
  Modelled from the spec: the cursor of section 4.5, \<^verbatim>\<open>(currentPageIndex, remainingHeight)\<close>,
  with the boxes placed on the current page, the pages finished so far and the warnings
  recorded. Pages are numbered from 1.
\<close>

record flow_state =
  current_page_index :: nat
  remaining_height :: rat
  current_boxes :: "placed_box list"
  finished :: "page list"
  recorded :: "layout_warning list"

text \<open>
  Modelled from the spec: the state a run starts in: the first page, empty, with the full
  content height remaining.
\<close>

definition initial :: "geometry \<Rightarrow> flow_state" where
  "initial g =
     \<lparr>current_page_index = 1, remaining_height = content_height g, current_boxes = [],
      finished = [], recorded = []\<rparr>"

text \<open>
  Modelled from the spec: ``place the block at the current vertical cursor, advance cursor
  by height, decrement remainingHeight'' (section 4.5, step 2).
\<close>

definition place :: "geometry \<Rightarrow> flow_state \<Rightarrow> nat \<Rightarrow> part \<Rightarrow> rat \<Rightarrow> flow_state" where
  "place g s i p h =
     s\<lparr>current_boxes := current_boxes s @
          [\<lparr>pb_x = 0, pb_y = content_height g - remaining_height s,
            pb_width = available_width g, pb_height = h, pb_block = i, pb_part = p\<rparr>],
       remaining_height := remaining_height s - h\<rparr>"

text \<open>
  Modelled from the spec: the state \<^verbatim>\<open>PageClosing\<close> (section 4.5): ``emits a finished Page,
  resets remainingHeight to full content height, increments currentPageIndex''.
\<close>

definition close_page :: "geometry \<Rightarrow> flow_state \<Rightarrow> flow_state" where
  "close_page g s =
     s\<lparr>finished := finished s @ [\<lparr>pg_index = current_page_index s, pg_boxes = current_boxes s\<rparr>],
       current_page_index := Suc (current_page_index s),
       remaining_height := content_height g,
       current_boxes := []\<rparr>"

text \<open>
  Modelled from the spec: ``place as many whole rows as fit'' (section 4.5, step 3): the
  number of leading rows that fit, one after the other, into the height \<open>r\<close>.
\<close>

fun fit_count :: "rat \<Rightarrow> rat list \<Rightarrow> nat" where
  "fit_count r [] = 0"
| "fit_count r (h # hs) = (if h \<le> r then Suc (fit_count (r - h) hs) else 0)"

text \<open>
  Modelled from the spec: the height the repeated header takes on a continuation page
  (section 4.4, ``carrying the header row (if marked repeatable) onto the continuation
  page''): that of the header row where the table repeats it and the piece does not start
  with the header row itself.
\<close>

definition carried :: "rat option \<Rightarrow> nat \<Rightarrow> rat" where
  "carried hdr from = (case hdr of None \<Rightarrow> 0 | Some h \<Rightarrow> if 0 < from then h else 0)"

text \<open>A split that places a row leaves fewer rows to place.\<close>

lemma fit_count_shorter: "0 < fit_count r hs \<Longrightarrow> length hs - fit_count r hs < length hs"
  by (cases hs) auto

text \<open>
  Modelled from the spec: the continuation of a split table on a fresh page (section 4.4
  and section 4.5, step 3). The rows from index \<open>from\<close> on, of heights \<open>hs\<close>, are still
  to place. If all fit below the carried header they are placed and the page stays open;
  if none fits the row cannot be placed without splitting it, which is the fatal
  \<^verbatim>\<open>SplitError\<close>; otherwise the rows that fit are placed, the page is closed and the rest
  continues on the next page. (For a table without repeated header, no row fits a fresh
  page exactly when the row is taller than the content area; what a repeated header that
  leaves no room for the next row should do the specification does not say, and it is
  the same error here.)
\<close>

function continue_rows ::
  "geometry \<Rightarrow> nat \<Rightarrow> rat option \<Rightarrow> nat \<Rightarrow> rat list \<Rightarrow> flow_state \<Rightarrow> layout_error + flow_state" where
  "continue_rows g i hdr from hs s =
     (let k = fit_count (remaining_height s - carried hdr from) hs;
          piece = place g s i (RowsPart from k (hdr \<noteq> None \<and> 0 < from))
                    (carried hdr from + sum_list (take k hs))
      in if k = length hs then Inr piece
         else if k = 0 then Inl (SplitError i)
         else continue_rows g i hdr (from + k) (drop k hs) (close_page g piece))"
  by pat_completeness auto
termination
  by (relation "measure (\<lambda>(g, i, hdr, from, hs, s). length hs)")
    (auto simp: fit_count_shorter)

declare continue_rows.simps [simp del]

text \<open>
  Modelled from the spec: the split rule on the current page (section 4.5, step 3):
  ``place as many whole rows as fit, close the page, continue the remainder on the next
  page''.
\<close>

definition split_table ::
  "geometry \<Rightarrow> nat \<Rightarrow> bool \<Rightarrow> rat list \<Rightarrow> flow_state \<Rightarrow> layout_error + flow_state" where
  "split_table g i rep hs s =
     (let k = fit_count (remaining_height s) hs;
          s1 = (if k = 0 then s else place g s i (RowsPart 0 k False) (sum_list (take k hs)));
          hdr = (if rep \<and> hs \<noteq> [] then Some (hd hs) else None)
      in continue_rows g i hdr k (drop k hs) (close_page g s1))"

text \<open>
  Modelled from the spec: the per-block transition rule of section 4.5. A page break is
  placed with height zero and closes the page, whatever height remains. A block that
  fits is placed (step 2). A table that does not fit is split (step 3). Any other block
  that does not fit is placed wholly on a new page, with a warning recorded when it is
  taller than the content area (step 4).
\<close>

fun flow_step :: "geometry \<Rightarrow> flow_state \<Rightarrow> nat \<Rightarrow> sized \<Rightarrow> layout_error + flow_state" where
  "flow_step g s i Break = Inr (close_page g (place g s i Whole 0))"
| "flow_step g s i (Fixed h) =
     (if h \<le> remaining_height s then Inr (place g s i Whole h)
      else Inr ((place g (close_page g s) i Whole h)
                  \<lparr>recorded := recorded s @
                     (if content_height g < h then [LayoutOverflowWarning i] else [])\<rparr>))"
| "flow_step g s i (Rows hs rep) =
     (if sum_list hs \<le> remaining_height s then Inr (place g s i Whole (sum_list hs))
      else split_table g i rep hs s)"

text \<open>
  Modelled from the spec: the blocks are consumed in order, each with its index; the
  first fatal error ends the run.
\<close>

fun flow :: "geometry \<Rightarrow> flow_state \<Rightarrow> nat \<Rightarrow> sized list \<Rightarrow> layout_error + flow_state" where
  "flow g s i [] = Inr s"
| "flow g s i (z # zs) =
     (case flow_step g s i z of
        Inl e \<Rightarrow> Inl e
      | Inr s' \<Rightarrow> flow g s' (Suc i) zs)"

text \<open>
  Modelled from the spec: the engine as ``a pure function from (page geometry, block
  sequence) to (page list)'' (section 3): lay out every block, run the flow from the first
  page, and close the current page unconditionally after the last block (section 4.5). A
  run returns a complete page list with its warnings, or one error.
\<close>

record layout_result =
  pages :: "page list"
  warnings :: "layout_warning list"

text \<open>
  Modelled from the spec: the pagination run (sections 3, 4.5 and 7).
\<close>

definition paginate :: "metrics \<Rightarrow> geometry \<Rightarrow> block list \<Rightarrow> layout_error + layout_result" where
  "paginate m g bs =
     (case layout_all m (available_width g) 0 bs of
        Inl e \<Rightarrow> Inl e
      | Inr zs \<Rightarrow>
          (case flow g (initial g) 0 zs of
             Inl e \<Rightarrow> Inl e
           | Inr s \<Rightarrow> Inr \<lparr>pages = finished (close_page g s), warnings = recorded s\<rparr>))"

text \<open>
  Notions for stating what the flow does. The pages of a state are its finished pages
  followed by the current one. A list of pages extends another when it has the same pages
  but for boxes added to the last one and pages added after it. \<open>starts_page fin n v\<close>:
  after the pages \<open>fin\<close>, and after pages without boxes, \<open>v\<close> has a page whose first
  box is a box of block \<open>n\<close> at the top of the content area. A state is fresh when its
  current page has no box and the full content height remains. \<open>bounded n s\<close>: every box
  of \<open>s\<close> is of a block before the \<open>n\<close>-th.
\<close>

definition view :: "flow_state \<Rightarrow> page list" where
  "view s = finished s @ [\<lparr>pg_index = current_page_index s, pg_boxes = current_boxes s\<rparr>]"

definition extends :: "page list \<Rightarrow> page list \<Rightarrow> bool" where
  "extends v v' =
     (\<exists>fin n bs bx rest. v = fin @ [\<lparr>pg_index = n, pg_boxes = bs\<rparr>]
        \<and> v' = fin @ \<lparr>pg_index = n, pg_boxes = bs @ bx\<rparr> # rest)"

definition starts_page :: "page list \<Rightarrow> nat \<Rightarrow> page list \<Rightarrow> bool" where
  "starts_page fin n v =
     (\<exists>mid nq bq rest. v = fin @ mid @ \<lparr>pg_index = nq, pg_boxes = bq\<rparr> # rest
        \<and> (\<forall>x \<in> set mid. pg_boxes x = [])
        \<and> bq \<noteq> [] \<and> pb_block (hd bq) = n \<and> pb_y (hd bq) = 0)"

definition fresh :: "geometry \<Rightarrow> flow_state \<Rightarrow> bool" where
  "fresh g s = (current_boxes s = [] \<and> remaining_height s = content_height g)"

definition bounded :: "nat \<Rightarrow> flow_state \<Rightarrow> bool" where
  "bounded n s =
     ((\<forall>x \<in> set (finished s). \<forall>b \<in> set (pg_boxes x). pb_block b < n)
      \<and> (\<forall>b \<in> set (current_boxes s). pb_block b < n))"

text \<open>
  A page and a measurer for the examples: content area 400 wide and 700 high, every glyph
  one unit wide.
\<close>

definition example_geometry :: geometry where
  "example_geometry =
     \<lparr>page_width = 500, page_height = 800, margin_top = 50, margin_right = 50,
      margin_bottom = 50, margin_left = 50\<rparr>"

definition example_metrics :: metrics where
  "example_metrics = \<lparr>glyph_width = (\<lambda>st c. 1), rule_margin = 2\<rparr>"

section \<open>Properties of the script\<close>

lemma make_step_data:
  "\<exists>c0 c1 c2.
     table_data (make_step u num title body owner code) =
       [[c0, c1, c2,
         Flow (if owner = ''you'' then Paragraph ''YOU'' owner_you_style
               else Paragraph ''CLAUDE'' owner_claude_style)]]"
  by (simp add: make_step_def Let_def)

text \<open>
  C9. The table \<^verbatim>\<open>make_step\<close> returns has one row of four cells. Its fourth cell is the
  paragraph \<^verbatim>\<open>YOU\<close> in \<^verbatim>\<open>owner_you_style\<close> (amber) exactly when \<^verbatim>\<open>owner\<close> is the string
  \<^verbatim>\<open>you\<close>; for every other owner, \<^verbatim>\<open>claude\<close> and unknown strings alike, it is the
  paragraph \<^verbatim>\<open>CLAUDE\<close> in \<^verbatim>\<open>owner_claude_style\<close> (teal).
\<close>

theorem make_step_owner_tag:
  "length (table_data (make_step u num title body owner code)) = 1
   \<and> length (table_data (make_step u num title body owner code) ! 0) = 4
   \<and> (table_data (make_step u num title body owner code) ! 0 ! 3
          = Flow (Paragraph ''YOU'' owner_you_style)
        \<longleftrightarrow> owner = ''you'')
   \<and> (owner \<noteq> ''you'' \<longrightarrow>
        table_data (make_step u num title body owner code) ! 0 ! 3
          = Flow (Paragraph ''CLAUDE'' owner_claude_style))
   \<and> textColor owner_you_style = Some AMBER
   \<and> textColor owner_claude_style = Some TEAL
   \<and> AMBER \<noteq> TEAL"
proof -
  obtain c0 c1 c2 where
    d: "table_data (make_step u num title body owner code) =
          [[c0, c1, c2,
            Flow (if owner = ''you'' then Paragraph ''YOU'' owner_you_style
                  else Paragraph ''CLAUDE'' owner_claude_style)]]"
    using make_step_data by blast
  have styles: "textColor owner_you_style = Some AMBER"
    "textColor owner_claude_style = Some TEAL" "AMBER \<noteq> TEAL"
    by (simp_all add: owner_you_style_def owner_claude_style_def AMBER_def TEAL_def)
  show ?thesis
    using styles by (simp add: d)
qed

theorem make_step_owner_tag_witness:
  "table_data (make_step \<lparr>inch = 72, letter = (612, 792)\<rparr> 9 ''Create contracts/.env''
       ''Provide your deployer private key.'' ''claude'' (Some ''KEY=1'')) ! 0 ! 3
     = Flow (Paragraph ''CLAUDE'' owner_claude_style)
   \<and> table_data (make_step \<lparr>inch = 72, letter = (612, 792)\<rparr> 1 ''Create a Vercel project''
       ''Go to vercel.com.'' ''you'' None) ! 0 ! 3
     = Flow (Paragraph ''YOU'' owner_you_style)
   \<and> table_data (make_step \<lparr>inch = 72, letter = (612, 792)\<rparr> 2 ''t'' ''b'' ''You'' None) ! 0 ! 3
     = Flow (Paragraph ''CLAUDE'' owner_claude_style)"
  using make_step_owner_tag [of "\<lparr>inch = 72, letter = (612, 792)\<rparr>" 9 "''Create contracts/.env''"
      "''Provide your deployer private key.''" "''claude''" "Some ''KEY=1''"]
    make_step_owner_tag [of "\<lparr>inch = 72, letter = (612, 792)\<rparr>" 1 "''Create a Vercel project''"
      "''Go to vercel.com.''" "''you''" None]
    make_step_owner_tag [of "\<lparr>inch = 72, letter = (612, 792)\<rparr>" 2 "''t''" "''b''" "''You''" None]
  by simp

lemma on_page_result:
  "on_page u eff c d = Some (c\<lparr>calls := calls c @ page_calls u (page d)\<rparr>)"
  by (simp add: on_page_def saveState_def call_def restoreState_def page_calls_def Let_def)

text \<open>
  C10. Whatever the other canvas calls do to the graphics state, \<^verbatim>\<open>on_page\<close> returns
  normally on every canvas and document, and the canvas it leaves is the one it was given
  with six calls appended to its log: the current graphics state and the stack of saved
  states are those before the call. The six calls are fixed but for the page number in
  the last one, so two documents with the same \<^verbatim>\<open>page\<close> get the same drawing, whatever
  else they hold.
\<close>

theorem on_page_frame:
  "(\<exists>c'. on_page u eff c d = Some c'
         \<and> gstate c' = gstate c \<and> saved c' = saved c
         \<and> calls c' = calls c @ page_calls u (page d))
   \<and> (page d = page d' \<longrightarrow> on_page u eff c d = on_page u eff c d')"
  by (simp add: on_page_result)

theorem on_page_frame_witness:
  "page \<lparr>page = 3\<rparr> = page \<lparr>page = 3, \<dots> = ''placed content''\<rparr>
   \<and> on_page \<lparr>inch = 72, letter = (612, 792)\<rparr> (\<lambda>k g. Suc g)
        \<lparr>gstate = 0, saved = [], calls = []\<rparr> \<lparr>page = 3\<rparr>
     = on_page \<lparr>inch = 72, letter = (612, 792)\<rparr> (\<lambda>k g. Suc g)
        \<lparr>gstate = 0, saved = [], calls = []\<rparr> \<lparr>page = 3, \<dots> = ''placed content''\<rparr>
   \<and> (\<exists>c'. on_page \<lparr>inch = 72, letter = (612, 792)\<rparr> (\<lambda>k g. Suc g)
          \<lparr>gstate = 0, saved = [], calls = []\<rparr> \<lparr>page = 3\<rparr> = Some c'
        \<and> gstate c' = (0::nat) \<and> saved c' = [])"
proof -
  note frame = on_page_frame [of "\<lparr>inch = 72, letter = (612, 792)\<rparr>" "\<lambda>k g. Suc g"
      "\<lparr>gstate = 0::nat, saved = [], calls = []\<rparr>" "\<lparr>page = 3\<rparr>"
      "\<lparr>page = 3, \<dots> = ''placed content''\<rparr>"]
  have same: "page \<lparr>page = 3\<rparr> = page \<lparr>page = 3, \<dots> = ''placed content''\<rparr>"
    by simp
  from frame same show ?thesis
    by (elim conjE exE impE) (auto simp del: ex_simps)
qed

section \<open>Properties of the text measurer\<close>

lemma words_from_no_space:
  "CHR '' '' \<notin> set x \<Longrightarrow> words_from cur x = (if cur @ x = [] then [] else [cur @ x])"
  by (induction x arbitrary: cur) auto

lemma words_from_space:
  "words_from cur (a @ CHR '' '' # b) = words_from cur a @ split_words b"
  by (induction a arbitrary: cur) (auto simp: split_words_def)

lemma split_words_word: "is_word x \<Longrightarrow> split_words x = [x]"
  by (simp add: split_words_def is_word_def words_from_no_space)

lemma split_words_space: "split_words (a @ CHR '' '' # b) = split_words a @ split_words b"
  by (simp add: split_words_def words_from_space)

lemma words_from_are_words:
  "x \<in> set (words_from cur t) \<Longrightarrow> CHR '' '' \<notin> set cur \<Longrightarrow> is_word x"
proof (induction t arbitrary: cur)
  case Nil
  then show ?case by (auto simp: is_word_def split: if_splits)
next
  case (Cons c t)
  show ?case
  proof (cases "c = CHR '' ''")
    case True
    with Cons.prems have "x = cur \<and> cur \<noteq> [] \<or> x \<in> set (words_from [] t)"
      by (auto split: if_splits)
    then show ?thesis
      using Cons.IH [of "[]"] Cons.prems(2) by (auto simp: is_word_def)
  next
    case False
    with Cons.prems have "x \<in> set (words_from (cur @ [c]) t)" by simp
    then show ?thesis
      using Cons.IH [of "cur @ [c]"] Cons.prems(2) False by simp
  qed
qed

lemma split_words_are_words: "x \<in> set (split_words t) \<Longrightarrow> is_word x"
  using words_from_are_words [of x "[]" t] by (simp add: split_words_def)

lemma join_words_snoc: "ws \<noteq> [] \<Longrightarrow> join_words (ws @ [x]) = join_words ws @ '' '' @ x"
  by (induction ws rule: join_words.induct) auto

lemma is_line_word: "is_word x \<Longrightarrow> is_line x"
  by (simp add: is_line_def split_words_word)

lemma is_line_extend:
  assumes "is_line l" "is_word x"
  shows "is_line (l @ '' '' @ x)" and "split_words (l @ '' '' @ x) = split_words l @ [x]"
proof -
  show w: "split_words (l @ '' '' @ x) = split_words l @ [x]"
    using assms by (simp add: split_words_space split_words_word)
  show "is_line (l @ '' '' @ x)"
    using assms w by (simp add: is_line_def join_words_snoc)
qed

lemma fill_lines_words:
  assumes "\<And>x. x \<in> set xs \<Longrightarrow> is_word x" "is_line line"
  shows "concat (map split_words (fill_lines w mx line xs)) = split_words line @ xs"
  using assms
proof (induction xs arbitrary: line)
  case Nil
  show ?case by simp
next
  case (Cons x xs)
  have x: "is_word x" using Cons.prems(1) by simp
  have xs: "\<And>y. y \<in> set xs \<Longrightarrow> is_word y" using Cons.prems(1) by simp
  show ?case
  proof (cases "w (line @ '' '' @ x) \<le> mx")
    case True
    then show ?thesis
      using Cons.IH [OF xs is_line_extend(1) [OF Cons.prems(2) x]]
        is_line_extend(2) [OF Cons.prems(2) x]
      by simp
  next
    case False
    then show ?thesis
      using Cons.IH [OF xs is_line_word [OF x]] split_words_word [OF x]
      by simp
  qed
qed

lemma fill_lines_are_lines:
  assumes "\<And>x. x \<in> set xs \<Longrightarrow> is_word x" "is_line line"
    "l \<in> set (fill_lines w mx line xs)"
  shows "is_line l"
  using assms
proof (induction xs arbitrary: line)
  case Nil
  then show ?case by simp
next
  case (Cons x xs)
  have x: "is_word x" using Cons.prems(1) by simp
  have xs: "\<And>y. y \<in> set xs \<Longrightarrow> is_word y" using Cons.prems(1) by simp
  show ?case
  proof (cases "w (line @ '' '' @ x) \<le> mx")
    case True
    then show ?thesis
      using Cons.IH [OF xs is_line_extend(1) [OF Cons.prems(2) x]] Cons.prems(3)
      by simp
  next
    case False
    then show ?thesis
      using Cons.IH [OF xs is_line_word [OF x]] Cons.prems(2,3)
      by auto
  qed
qed

lemma fill_lines_first:
  assumes "\<And>x. x \<in> set xs \<Longrightarrow> is_word x" "is_line line"
  shows "\<exists>l ls rest. fill_lines w mx line xs = l # ls
           \<and> split_words l = split_words line @ rest"
  using assms
proof (induction xs arbitrary: line)
  case Nil
  show ?case by simp
next
  case (Cons x xs)
  have x: "is_word x" using Cons.prems(1) by simp
  have xs: "\<And>y. y \<in> set xs \<Longrightarrow> is_word y" using Cons.prems(1) by simp
  show ?case
  proof (cases "w (line @ '' '' @ x) \<le> mx")
    case True
    then show ?thesis
      using Cons.IH [OF xs is_line_extend(1) [OF Cons.prems(2) x]]
        is_line_extend(2) [OF Cons.prems(2) x]
      by auto
  next
    case False
    then show ?thesis by simp
  qed
qed

lemma fill_lines_greedy:
  assumes "\<And>x. x \<in> set xs \<Longrightarrow> is_word x" "is_line line"
  shows "greedy_breaks w mx (fill_lines w mx line xs)"
  using assms
proof (induction xs arbitrary: line)
  case Nil
  show ?case by simp
next
  case (Cons x xs)
  have x: "is_word x" using Cons.prems(1) by simp
  have xs: "\<And>y. y \<in> set xs \<Longrightarrow> is_word y" using Cons.prems(1) by simp
  show ?case
  proof (cases "w (line @ '' '' @ x) \<le> mx")
    case True
    then show ?thesis
      using Cons.IH [OF xs is_line_extend(1) [OF Cons.prems(2) x]] by simp
  next
    case False
    obtain l ls rest where
      f: "fill_lines w mx x xs = l # ls" and s: "split_words l = split_words x @ rest"
      using fill_lines_first [OF xs is_line_word [OF x]] by blast
    have "hd (split_words l) = x"
      using s split_words_word [OF x] by simp
    then show ?thesis
      using False f Cons.IH [OF xs is_line_word [OF x]] by simp
  qed
qed

lemma fill_lines_fit:
  assumes "\<And>x. x \<in> set xs \<Longrightarrow> is_word x" "is_line line"
    "w line \<le> mx \<or> length (split_words line) = 1"
    "l \<in> set (fill_lines w mx line xs)"
  shows "w l \<le> mx \<or> length (split_words l) = 1"
  using assms
proof (induction xs arbitrary: line)
  case Nil
  then show ?case by simp
next
  case (Cons x xs)
  have x: "is_word x" using Cons.prems(1) by simp
  have xs: "\<And>y. y \<in> set xs \<Longrightarrow> is_word y" using Cons.prems(1) by simp
  show ?case
  proof (cases "w (line @ '' '' @ x) \<le> mx")
    case True
    then show ?thesis
      using Cons.IH [OF xs is_line_extend(1) [OF Cons.prems(2) x]] Cons.prems(4)
      by simp
  next
    case False
    have "w x \<le> mx \<or> length (split_words x) = 1"
      using split_words_word [OF x] by simp
    then show ?thesis
      using False Cons.IH [OF xs is_line_word [OF x]] Cons.prems(3,4)
      by auto
  qed
qed

lemma greedy_breaks_nth:
  "greedy_breaks w mx ls \<Longrightarrow> Suc i < length ls
     \<Longrightarrow> mx < w (ls ! i @ '' '' @ hd (split_words (ls ! Suc i)))"
proof (induction w mx ls arbitrary: i rule: greedy_breaks.induct)
  case (1 w mx l l' ls)
  then show ?case by (cases i) auto
qed auto

lemma text_width_append: "text_width gw st (a @ b) = text_width gw st a + text_width gw st b"
  by (simp add: text_width_def)

lemma text_width_nonneg: "(\<And>c. 0 \<le> gw st c) \<Longrightarrow> 0 \<le> text_width gw st s"
  by (auto simp: text_width_def intro!: sum_list_nonneg)

lemma text_width_join:
  assumes "\<And>c. 0 \<le> gw st c" "x \<in> set ws"
  shows "text_width gw st x \<le> text_width gw st (join_words ws)"
  using assms(2)
proof (induction ws rule: join_words.induct)
  case 1
  then show ?case by simp
next
  case (2 y)
  then show ?case by simp
next
  case (3 y z zs)
  have nn: "\<And>s. 0 \<le> text_width gw st s"
    using assms(1) by (rule text_width_nonneg)
  have "text_width gw st (join_words (y # z # zs))
          = text_width gw st y + text_width gw st '' '' + text_width gw st (join_words (z # zs))"
    by (simp add: text_width_def)
  moreover have "x = y \<or> x \<in> set (z # zs)" using "3.prems" by auto
  ultimately show ?case
    using "3.IH" nn [of y] nn [of "'' ''"] nn [of "join_words (z # zs)"] by fastforce
qed

lemma wrap_props:
  shows "concat (map split_words (wrap w mx (split_words t))) = split_words t"
    and "l \<in> set (wrap w mx (split_words t)) \<Longrightarrow> is_line l"
    and "l \<in> set (wrap w mx (split_words t)) \<Longrightarrow> w l \<le> mx \<or> length (split_words l) = 1"
    and "greedy_breaks w mx (wrap w mx (split_words t))"
proof -
  show "concat (map split_words (wrap w mx (split_words t))) = split_words t"
  proof (cases "split_words t")
    case Nil
    then show ?thesis by (simp add: wrap_def)
  next
    case (Cons x xs)
    have x: "is_word x" and xs: "\<And>y. y \<in> set xs \<Longrightarrow> is_word y"
      using split_words_are_words [of _ t] Cons by auto
    show ?thesis
      using fill_lines_words [OF xs is_line_word [OF x], of xs w mx] split_words_word [OF x] Cons
      by (simp add: wrap_def)
  qed
  show "is_line l" if "l \<in> set (wrap w mx (split_words t))"
  proof (cases "split_words t")
    case Nil
    with that show ?thesis by (simp add: wrap_def)
  next
    case (Cons x xs)
    have x: "is_word x" and xs: "\<And>y. y \<in> set xs \<Longrightarrow> is_word y"
      using split_words_are_words [of _ t] Cons by auto
    show ?thesis
      using fill_lines_are_lines [OF xs is_line_word [OF x], of xs l w mx] that Cons
      by (simp add: wrap_def)
  qed
  show "w l \<le> mx \<or> length (split_words l) = 1" if "l \<in> set (wrap w mx (split_words t))"
  proof (cases "split_words t")
    case Nil
    with that show ?thesis by (simp add: wrap_def)
  next
    case (Cons x xs)
    have x: "is_word x" and xs: "\<And>y. y \<in> set xs \<Longrightarrow> is_word y"
      using split_words_are_words [of _ t] Cons by auto
    have one: "w x \<le> mx \<or> length (split_words x) = 1"
      using split_words_word [OF x] by simp
    show ?thesis
      using fill_lines_fit [of xs x w mx l] xs is_line_word [OF x] one that Cons
      by (simp add: wrap_def)
  qed
  show "greedy_breaks w mx (wrap w mx (split_words t))"
  proof (cases "split_words t")
    case Nil
    then show ?thesis by (simp add: wrap_def)
  next
    case (Cons x xs)
    have x: "is_word x" and xs: "\<And>y. y \<in> set xs \<Longrightarrow> is_word y"
      using split_words_are_words [of _ t] Cons by auto
    show ?thesis
      using fill_lines_greedy [OF xs is_line_word [OF x], of xs w mx] Cons
      by (simp add: wrap_def)
  qed
qed

text \<open>
  C8. For every text, style and maximal width, the lines \<open>measure_lines\<close> returns have
  the style's leading as their height and the width of their text as their width; their
  words, read line after line, are the words of the text, each whole and in order; every
  line is a non-empty sequence of words joined by single spaces; a line is wider than the
  maximal width only if it holds a single word; and every break is forced: the first word
  of a line, put after the line before it, would have made that line exceed the maximal
  width. Where no glyph has a negative width, a word wider than the maximal width is alone
  on its line.
\<close>

theorem measure_greedy_wrap:
  "(let ls = measure_lines gw t st mx; W = text_width gw st in
      (\<forall>l \<in> set ls. snd (snd l) = rs_leading st \<and> fst (snd l) = W (fst l))
    \<and> concat (map (\<lambda>l. split_words (fst l)) ls) = split_words t
    \<and> (\<forall>l \<in> set ls. split_words (fst l) \<noteq> [] \<and> fst l = join_words (split_words (fst l)))
    \<and> (\<forall>l \<in> set ls. W (fst l) \<le> mx \<or> length (split_words (fst l)) = 1)
    \<and> (\<forall>i. Suc i < length ls \<longrightarrow>
          mx < W (fst (ls ! i) @ '' '' @ hd (split_words (fst (ls ! Suc i)))))
    \<and> ((\<forall>c. 0 \<le> gw st c) \<longrightarrow>
          (\<forall>l \<in> set ls. \<forall>x \<in> set (split_words (fst l)). mx < W x \<longrightarrow> fst l = x)))"
proof -
  define W where "W = text_width gw st"
  define lines where "lines = wrap W mx (split_words t)"
  define ls where "ls = measure_lines gw t st mx"
  have ls: "ls = map (\<lambda>l. (l, W l, rs_leading st)) lines"
    by (simp add: ls_def lines_def W_def measure_lines_def)
  have fsts: "map fst ls = lines"
    by (simp add: ls comp_def)
  have mem: "fst l \<in> set lines" if "l \<in> set ls" for l
    using that by (auto simp: ls)
  have p1: "\<forall>l \<in> set ls. snd (snd l) = rs_leading st \<and> fst (snd l) = W (fst l)"
    by (auto simp: ls)
  have p2: "concat (map (\<lambda>l. split_words (fst l)) ls) = split_words t"
    using wrap_props(1) [of W mx t] by (simp add: ls lines_def comp_def)
  have p3: "\<forall>l \<in> set ls. split_words (fst l) \<noteq> [] \<and> fst l = join_words (split_words (fst l))"
    using wrap_props(2) [of _ W mx t] mem by (auto simp: lines_def is_line_def)
  have p4: "\<forall>l \<in> set ls. W (fst l) \<le> mx \<or> length (split_words (fst l)) = 1"
    using wrap_props(3) [of _ W mx t] mem by (auto simp: lines_def)
  have p5: "mx < W (fst (ls ! i) @ '' '' @ hd (split_words (fst (ls ! Suc i))))"
    if "Suc i < length ls" for i
  proof -
    have "Suc i < length lines" using that by (simp add: ls)
    then have "mx < W (lines ! i @ '' '' @ hd (split_words (lines ! Suc i)))"
      using greedy_breaks_nth [OF wrap_props(4) [of W mx t], of i] by (simp add: lines_def)
    moreover have "fst (ls ! i) = lines ! i" "fst (ls ! Suc i) = lines ! Suc i"
      using that by (simp_all add: ls)
    ultimately show ?thesis by simp
  qed
  have p6: "fst l = x"
    if nn: "\<forall>c. 0 \<le> gw st c" and l: "l \<in> set ls" and x: "x \<in> set (split_words (fst l))"
      and wide: "mx < W x" for l x
  proof -
    have j: "fst l = join_words (split_words (fst l))" using p3 l by blast
    have "W x \<le> W (fst l)"
      using text_width_join [of gw st x "split_words (fst l)"] nn x j by (simp add: W_def)
    then have "length (split_words (fst l)) = 1" using p4 l wide by fastforce
    then obtain y where "split_words (fst l) = [y]"
      by (cases "split_words (fst l)") auto
    then show ?thesis using x j by simp
  qed
  show ?thesis
    unfolding Let_def ls_def [symmetric] W_def [symmetric]
    using p1 p2 p3 p4 p5 p6 by blast
qed

theorem measure_greedy_wrap_witness:
  "measure_lines (\<lambda>st c. 1) ''aa bbb  c ddddddddd e '' body_style 6
     = [(''aa bbb'', 6, 13), (''c'', 1, 13), (''ddddddddd'', 9, 13), (''e'', 1, 13)]
   \<and> (\<forall>c. (0::rat) \<le> (\<lambda>st c. 1) body_style c)
   \<and> split_words ''aa bbb  c ddddddddd e '' = [''aa'', ''bbb'', ''c'', ''ddddddddd'', ''e'']
   \<and> 6 < text_width (\<lambda>st c. 1) body_style ''ddddddddd''
   \<and> 6 < text_width (\<lambda>st c. 1) body_style (''aa bbb'' @ '' '' @ ''c'')
   \<and> rs_leading body_style = 13"
proof -
  have ev: "measure_lines (\<lambda>st c. 1) ''aa bbb  c ddddddddd e '' body_style 6
     = [(''aa bbb'', 6, 13), (''c'', 1, 13), (''ddddddddd'', 9, 13), (''e'', 1, 13)]"
    by (simp add: measure_lines_def wrap_def split_words_def text_width_def body_style_def)
  have sw: "split_words ''aa bbb'' = [''aa'', ''bbb'']" "split_words ''c'' = [''c'']"
    "split_words ''ddddddddd'' = [''ddddddddd'']" "split_words ''e'' = [''e'']"
    by (simp_all add: split_words_def)
  note t = measure_greedy_wrap [of "\<lambda>st c. 1" "''aa bbb  c ddddddddd e ''" body_style 6]
  from t have words: "split_words ''aa bbb  c ddddddddd e '' = [''aa'', ''bbb'', ''c'', ''ddddddddd'', ''e'']"
    unfolding Let_def ev by (simp add: sw)
  from t have lead: "rs_leading body_style = 13"
    unfolding Let_def ev by simp
  from t have g: "6 < text_width (\<lambda>st c. 1) body_style (''aa bbb'' @ '' '' @ ''c'')"
    unfolding Let_def ev by (elim conjE allE [of _ 0]) (simp add: sw)
  show ?thesis
    using ev words lead g by (simp add: text_width_def)
qed

section \<open>Properties of the flow engine\<close>

lemma extendsI:
  "v = fin @ [\<lparr>pg_index = n, pg_boxes = bs\<rparr>]
     \<Longrightarrow> v' = fin @ \<lparr>pg_index = n, pg_boxes = bs @ bx\<rparr> # rest \<Longrightarrow> extends v v'"
  unfolding extends_def by blast

lemma extends_refl: "extends (view s) (view s)"
  by (rule extendsI [where fin = "finished s" and bx = "[]" and rest = "[]"])
    (simp_all add: view_def)

lemma extends_place: "extends (view s) (view (place g s i p h))"
  by (rule extendsI [where fin = "finished s" and rest = "[]"])
    (simp_all add: view_def place_def)

lemma extends_close: "extends (view s) (view (close_page g s))"
  by (rule extendsI [where fin = "finished s" and bx = "[]"])
    (simp_all add: view_def close_page_def)

lemma extends_trans:
  assumes "extends a b" "extends b c"
  shows "extends a c"
proof -
  from assms(1) obtain F n bs bx rest where
    a: "a = F @ [\<lparr>pg_index = n, pg_boxes = bs\<rparr>]"
    and b: "b = F @ \<lparr>pg_index = n, pg_boxes = bs @ bx\<rparr> # rest"
    unfolding extends_def by blast
  from assms(2) obtain F' n' bs' bx' rest' where
    b': "b = F' @ [\<lparr>pg_index = n', pg_boxes = bs'\<rparr>]"
    and c: "c = F' @ \<lparr>pg_index = n', pg_boxes = bs' @ bx'\<rparr> # rest'"
    unfolding extends_def by blast
  show ?thesis
  proof (cases rest rule: rev_cases)
    case Nil
    with b b' have "F' = F" "n' = n" "bs' = bs @ bx" by simp_all
    then have "c = F @ \<lparr>pg_index = n, pg_boxes = bs @ (bx @ bx')\<rparr> # rest'"
      using c by simp
    with a show ?thesis by (rule extendsI)
  next
    case (snoc ms l)
    with b b' have F': "F' = F @ \<lparr>pg_index = n, pg_boxes = bs @ bx\<rparr> # ms"
      and l: "l = \<lparr>pg_index = n', pg_boxes = bs'\<rparr>" by simp_all
    have "c = F @ \<lparr>pg_index = n, pg_boxes = bs @ bx\<rparr>
                # (ms @ \<lparr>pg_index = n', pg_boxes = bs' @ bx'\<rparr> # rest')"
      using c F' by simp
    with a show ?thesis by (rule extendsI)
  qed
qed

lemma continue_rows_cases:
  assumes "continue_rows g i hdr from hs s = Inr s'"
  obtains (final) k h where "s' = place g s i (RowsPart from k (hdr \<noteq> None \<and> 0 < from)) h"
  | (further) k h where "0 < k"
      "continue_rows g i hdr (from + k) (drop k hs)
         (close_page g (place g s i (RowsPart from k (hdr \<noteq> None \<and> 0 < from)) h)) = Inr s'"
      "k = fit_count (remaining_height s - carried hdr from) hs" "k \<noteq> length hs"
  using assms
  by (subst (asm) continue_rows.simps) (auto simp: Let_def split: if_splits)

lemma extends_continue:
  "continue_rows g i hdr from hs s = Inr s' \<Longrightarrow> extends (view s) (view s')"
proof (induction "length hs" arbitrary: hs "from" s rule: less_induct)
  case less
  from less.prems show ?case
  proof (cases rule: continue_rows_cases)
    case (final k h)
    then show ?thesis by (simp add: extends_place)
  next
    case (further k h)
    have "length (drop k hs) < length hs"
      using further(1,3) fit_count_shorter [of "remaining_height s - carried hdr from" hs]
      by simp
    from less.hyps [OF this further(2)]
    have "extends (view (close_page g (place g s i (RowsPart from k (hdr \<noteq> None \<and> 0 < from)) h)))
            (view s')" .
    then show ?thesis
      using extends_trans [OF extends_place extends_trans [OF extends_close]] by blast
  qed
qed

lemma extends_split:
  assumes "split_table g i rep hs s = Inr s'"
  shows "extends (view s) (view s')"
proof -
  define k where "k = fit_count (remaining_height s) hs"
  define s1 where
    "s1 = (if k = 0 then s else place g s i (RowsPart 0 k False) (sum_list (take k hs)))"
  define hdr where "hdr = (if rep \<and> hs \<noteq> [] then Some (hd hs) else None)"
  have 1: "extends (view s) (view s1)"
    by (simp add: s1_def extends_refl extends_place)
  have 2: "continue_rows g i hdr k (drop k hs) (close_page g s1) = Inr s'"
    using assms unfolding split_table_def Let_def k_def s1_def hdr_def .
  show ?thesis
    using extends_trans [OF 1 extends_trans [OF extends_close extends_continue [OF 2]]] .
qed

lemma view_recorded: "view (x\<lparr>recorded := w\<rparr>) = view x"
  by (simp add: view_def)

lemma extends_step:
  assumes "flow_step g s i z = Inr s'"
  shows "extends (view s) (view s')"
proof (cases z)
  case Break
  with assms have "s' = close_page g (place g s i Whole 0)" by simp
  then show ?thesis
    using extends_trans [OF extends_place extends_close] by simp
next
  case (Fixed h)
  show ?thesis
  proof (cases "h \<le> remaining_height s")
    case True
    with Fixed assms have "s' = place g s i Whole h" by simp
    then show ?thesis by (simp add: extends_place)
  next
    case False
    with Fixed assms have "view s' = view (place g (close_page g s) i Whole h)"
      by (auto simp: view_recorded)
    then show ?thesis
      by (simp add: extends_trans [OF extends_close extends_place])
  qed
next
  case (Rows hs rep)
  show ?thesis
  proof (cases "sum_list hs \<le> remaining_height s")
    case True
    with Rows assms have "s' = place g s i Whole (sum_list hs)" by simp
    then show ?thesis by (simp add: extends_place)
  next
    case False
    with Rows assms have "split_table g i rep hs s = Inr s'" by simp
    then show ?thesis by (rule extends_split)
  qed
qed

lemma extends_flow:
  "flow g s i zs = Inr s' \<Longrightarrow> extends (view s) (view s')"
proof (induction zs arbitrary: s i)
  case Nil
  then show ?case by (simp add: extends_refl)
next
  case (Cons z zs)
  then obtain s1 where "flow_step g s i z = Inr s1" "flow g s1 (Suc i) zs = Inr s'"
    by (auto split: sum.splits)
  then show ?case
    using extends_trans [OF extends_step Cons.IH] by blast
qed

lemma starts_pageI:
  "v = fin @ mid @ \<lparr>pg_index = nq, pg_boxes = bq\<rparr> # rest
     \<Longrightarrow> \<forall>x \<in> set mid. pg_boxes x = []
     \<Longrightarrow> bq \<noteq> [] \<Longrightarrow> pb_block (hd bq) = n \<Longrightarrow> pb_y (hd bq) = 0
     \<Longrightarrow> starts_page fin n v"
  unfolding starts_page_def by blast

lemma starts_extends:
  assumes "starts_page fin n v" "extends v v'"
  shows "starts_page fin n v'"
proof -
  from assms(1) obtain mid nq bq rest where
    v: "v = fin @ mid @ \<lparr>pg_index = nq, pg_boxes = bq\<rparr> # rest"
    and mid: "\<And>x. x \<in> set mid \<Longrightarrow> pg_boxes x = []"
    and q: "bq \<noteq> []" "pb_block (hd bq) = n" "pb_y (hd bq) = 0"
    unfolding starts_page_def by blast
  from assms(2) obtain F k bs bx rest' where
    v2: "v = F @ [\<lparr>pg_index = k, pg_boxes = bs\<rparr>]"
    and v': "v' = F @ \<lparr>pg_index = k, pg_boxes = bs @ bx\<rparr> # rest'"
    unfolding extends_def by blast
  show ?thesis
  proof (cases rest rule: rev_cases)
    case Nil
    with v v2 have "F = fin @ mid" "k = nq" "bs = bq" by simp_all
    then have "v' = fin @ mid @ \<lparr>pg_index = nq, pg_boxes = bq @ bx\<rparr> # rest'"
      using v' by simp
    then show ?thesis
      by (rule starts_pageI) (use mid q in simp_all)
  next
    case (snoc rs l)
    with v v2 have "F = fin @ mid @ \<lparr>pg_index = nq, pg_boxes = bq\<rparr> # rs" by simp
    then have "v' = fin @ mid @ \<lparr>pg_index = nq, pg_boxes = bq\<rparr>
                 # (rs @ \<lparr>pg_index = k, pg_boxes = bs @ bx\<rparr> # rest')"
      using v' by simp
    then show ?thesis
      by (rule starts_pageI) (use mid q in simp_all)
  qed
qed

lemma starts_place:
  assumes "fresh g s"
  shows "starts_page (finished s) i (view (place g s i p h))"
  by (rule starts_pageI [where mid = "[]" and rest = "[]" and nq = "current_page_index s"
        and bq = "[\<lparr>pb_x = 0, pb_y = 0, pb_width = available_width g, pb_height = h,
                    pb_block = i, pb_part = p\<rparr>]"])
    (use assms in \<open>simp_all add: view_def place_def fresh_def\<close>)

lemma fresh_close: "fresh g (close_page g s)"
  by (simp add: fresh_def close_page_def)

lemma starts_after_blank:
  assumes "current_boxes s = []" "starts_page (finished (close_page g s)) n v"
  shows "starts_page (finished s) n v"
proof -
  from assms(2) obtain mid nq bq rest where
    v: "v = finished (close_page g s) @ mid @ \<lparr>pg_index = nq, pg_boxes = bq\<rparr> # rest"
    and mid: "\<And>x. x \<in> set mid \<Longrightarrow> pg_boxes x = []"
    and q: "bq \<noteq> []" "pb_block (hd bq) = n" "pb_y (hd bq) = 0"
    unfolding starts_page_def by blast
  have "v = finished s @ (\<lparr>pg_index = current_page_index s, pg_boxes = []\<rparr> # mid)
              @ \<lparr>pg_index = nq, pg_boxes = bq\<rparr> # rest"
    using v assms(1) by (simp add: close_page_def)
  then show ?thesis
    by (rule starts_pageI) (use mid q in auto)
qed

lemma starts_continue:
  assumes "fresh g s" "continue_rows g i hdr from hs s = Inr s'"
  shows "starts_page (finished s) i (view s')"
  using assms(2)
proof (cases rule: continue_rows_cases)
  case (final k h)
  then show ?thesis using starts_place [OF assms(1)] by simp
next
  case (further k h)
  have "extends (view (place g s i (RowsPart from k (hdr \<noteq> None \<and> 0 < from)) h)) (view s')"
    using extends_trans [OF extends_close extends_continue [OF further(2)]] .
  with starts_place [OF assms(1)] show ?thesis
    by (rule starts_extends)
qed

lemma starts_split:
  assumes "fresh g s" "split_table g i rep hs s = Inr s'"
  shows "starts_page (finished s) i (view s')"
proof -
  define k where "k = fit_count (remaining_height s) hs"
  define s1 where
    "s1 = (if k = 0 then s else place g s i (RowsPart 0 k False) (sum_list (take k hs)))"
  define hdr where "hdr = (if rep \<and> hs \<noteq> [] then Some (hd hs) else None)"
  have c: "continue_rows g i hdr k (drop k hs) (close_page g s1) = Inr s'"
    using assms(2) unfolding split_table_def Let_def k_def s1_def hdr_def .
  show ?thesis
  proof (cases "k = 0")
    case True
    then have "s1 = s" by (simp add: s1_def)
    with c have "starts_page (finished (close_page g s)) i (view s')"
      using starts_continue [OF fresh_close] by simp
    then show ?thesis
      using assms(1) starts_after_blank [of s g i "view s'"] by (simp add: fresh_def)
  next
    case False
    then have s1: "s1 = place g s i (RowsPart 0 k False) (sum_list (take k hs))"
      by (simp add: s1_def)
    have "extends (view s1) (view s')"
      using extends_trans [OF extends_close extends_continue [OF c]] .
    with starts_place [OF assms(1)] show ?thesis
      unfolding s1 by (rule starts_extends)
  qed
qed

lemma starts_step:
  assumes "fresh g s" "flow_step g s i z = Inr s'"
  shows "starts_page (finished s) i (view s')"
proof (cases z)
  case Break
  with assms(2) have "s' = close_page g (place g s i Whole 0)" by simp
  then show ?thesis
    using starts_extends [OF starts_place [OF assms(1)] extends_close] by simp
next
  case (Fixed h)
  show ?thesis
  proof (cases "h \<le> remaining_height s")
    case True
    with Fixed assms(2) have "s' = place g s i Whole h" by simp
    then show ?thesis using starts_place [OF assms(1)] by simp
  next
    case False
    with Fixed assms(2) have "view s' = view (place g (close_page g s) i Whole h)"
      by (auto simp: view_recorded)
    then have "starts_page (finished (close_page g s)) i (view s')"
      using starts_place [OF fresh_close] by simp
    then show ?thesis
      using assms(1) starts_after_blank [of s g i "view s'"] by (simp add: fresh_def)
  qed
next
  case (Rows hs rep)
  show ?thesis
  proof (cases "sum_list hs \<le> remaining_height s")
    case True
    with Rows assms(2) have "s' = place g s i Whole (sum_list hs)" by simp
    then show ?thesis using starts_place [OF assms(1)] by simp
  next
    case False
    with Rows assms(2) have "split_table g i rep hs s = Inr s'" by simp
    with assms(1) show ?thesis by (rule starts_split)
  qed
qed

lemma bounded_initial: "bounded 0 (initial g)"
  by (simp add: bounded_def initial_def)

lemma bounded_mono: "bounded n s \<Longrightarrow> n \<le> n' \<Longrightarrow> bounded n' s"
  unfolding bounded_def by (meson less_le_trans)

lemma bounded_place: "bounded n s \<Longrightarrow> i < n \<Longrightarrow> bounded n (place g s i p h)"
  by (simp add: bounded_def place_def)

lemma bounded_close: "bounded n s \<Longrightarrow> bounded n (close_page g s)"
  by (simp add: bounded_def close_page_def)

lemma bounded_recorded: "bounded n (s\<lparr>recorded := w\<rparr>) = bounded n s"
  by (simp add: bounded_def)

lemma bounded_continue:
  "continue_rows g i hdr from hs s = Inr s' \<Longrightarrow> bounded n s \<Longrightarrow> i < n \<Longrightarrow> bounded n s'"
proof (induction "length hs" arbitrary: hs "from" s rule: less_induct)
  case less
  from less.prems(1) show ?case
  proof (cases rule: continue_rows_cases)
    case (final k h)
    then show ?thesis using less.prems by (simp add: bounded_place)
  next
    case (further k h)
    have "length (drop k hs) < length hs"
      using further(1,3) fit_count_shorter [of "remaining_height s - carried hdr from" hs]
      by simp
    from less.hyps [OF this further(2)] show ?thesis
      using less.prems by (simp add: bounded_place bounded_close)
  qed
qed

lemma bounded_split:
  assumes "split_table g i rep hs s = Inr s'" "bounded n s" "i < n"
  shows "bounded n s'"
proof -
  define k where "k = fit_count (remaining_height s) hs"
  define s1 where
    "s1 = (if k = 0 then s else place g s i (RowsPart 0 k False) (sum_list (take k hs)))"
  define hdr where "hdr = (if rep \<and> hs \<noteq> [] then Some (hd hs) else None)"
  have c: "continue_rows g i hdr k (drop k hs) (close_page g s1) = Inr s'"
    using assms(1) unfolding split_table_def Let_def k_def s1_def hdr_def .
  have "bounded n s1"
    using assms(2,3) by (simp add: s1_def bounded_place)
  then show ?thesis
    using bounded_continue [OF c] assms(3) by (simp add: bounded_close)
qed

lemma bounded_step:
  assumes "flow_step g s i z = Inr s'" "bounded i s"
  shows "bounded (Suc i) s'"
proof -
  have b: "bounded (Suc i) s" using assms(2) by (rule bounded_mono) simp
  show ?thesis
  proof (cases z)
    case Break
    with assms(1) b show ?thesis by (auto simp: bounded_place bounded_close)
  next
    case (Fixed h)
    with assms(1) b show ?thesis
      by (auto simp: bounded_place bounded_close bounded_recorded split: if_splits)
  next
    case (Rows hs rep)
    with assms(1) b show ?thesis
      by (auto simp: bounded_place split: if_splits intro: bounded_split)
  qed
qed

lemma bounded_flow:
  "flow g s i zs = Inr s' \<Longrightarrow> bounded i s \<Longrightarrow> bounded (i + length zs) s'"
proof (induction zs arbitrary: s i)
  case Nil
  then show ?case by simp
next
  case (Cons z zs)
  then obtain s1 where 1: "flow_step g s i z = Inr s1" and 2: "flow g s1 (Suc i) zs = Inr s'"
    by (auto split: sum.splits)
  show ?case
    using Cons.IH [OF 2 bounded_step [OF 1 Cons.prems(2)]] by simp
qed

lemma layout_all_append:
  "layout_all m aw i (xs @ ys) = Inr zs
     \<Longrightarrow> \<exists>zs1 zs2. zs = zs1 @ zs2 \<and> length zs1 = length xs
           \<and> layout_all m aw i xs = Inr zs1
           \<and> layout_all m aw (i + length xs) ys = Inr zs2"
proof (induction xs arbitrary: i zs)
  case Nil
  then show ?case by simp
next
  case (Cons x xs)
  then obtain z zs' where z: "size_block m aw x = Some z"
    and r: "layout_all m aw (Suc i) (xs @ ys) = Inr zs'" and zs: "zs = z # zs'"
    by (auto split: option.splits sum.splits)
  from Cons.IH [OF r] obtain zs1 zs2 where
    "zs' = zs1 @ zs2" "length zs1 = length xs" "layout_all m aw (Suc i) xs = Inr zs1"
    "layout_all m aw (Suc i + length xs) ys = Inr zs2" by blast
  then show ?case
    using z zs by (intro exI [of _ "z # zs1"] exI [of _ zs2]) simp
qed

lemma flow_append:
  "flow g s i (zs1 @ zs2) = Inr s'
     \<Longrightarrow> \<exists>s1. flow g s i zs1 = Inr s1 \<and> flow g s1 (i + length zs1) zs2 = Inr s'"
proof (induction zs1 arbitrary: s i)
  case Nil
  then show ?case by simp
next
  case (Cons z zs1)
  then obtain t where 1: "flow_step g s i z = Inr t"
    and 2: "flow g t (Suc i) (zs1 @ zs2) = Inr s'"
    by (auto split: sum.splits)
  from Cons.IH [OF 2] show ?case using 1 by simp
qed

lemma pages_view: "finished (close_page g s) = view s"
  by (simp add: close_page_def view_def)

text \<open>
  C7. Whatever precedes a page break and however much height remains, a run that returns
  has laid the page break out with height zero and placed it as the last box, of height
  zero, of a page on which and before which there are only boxes of earlier blocks; that
  page is closed there, and at least one page follows it. If a block follows the page
  break, its first box is the first box of a later page, at the top of the content area,
  and the pages between the two (there is one when that block is taller than a page and
  is moved to a page of its own) hold no box.
\<close>

theorem page_break_starts_new_page:
  "paginate m g (pre @ PageBreakB # post) = Inr r \<Longrightarrow>
     block_height m (available_width g) PageBreakB = Some 0
     \<and> (\<exists>ps np bp rest.
           pages r = ps @ \<lparr>pg_index = np, pg_boxes = bp\<rparr> # rest
         \<and> rest \<noteq> []
         \<and> (\<forall>x \<in> set ps. \<forall>bx \<in> set (pg_boxes x). pb_block bx < length pre)
         \<and> bp \<noteq> [] \<and> pb_block (last bp) = length pre \<and> pb_height (last bp) = 0
         \<and> (\<forall>bx \<in> set (butlast bp). pb_block bx < length pre)
         \<and> (post \<noteq> [] \<longrightarrow>
              (\<exists>mid nq bq qs.
                 rest = mid @ \<lparr>pg_index = nq, pg_boxes = bq\<rparr> # qs
               \<and> (\<forall>x \<in> set mid. pg_boxes x = [])
               \<and> bq \<noteq> [] \<and> pb_block (hd bq) = Suc (length pre) \<and> pb_y (hd bq) = 0)))"
proof -
  assume run: "paginate m g (pre @ PageBreakB # post) = Inr r"
  define i where "i = length pre"
  define aw where "aw = available_width g"
  from run obtain zs s4 where
    la: "layout_all m aw 0 (pre @ PageBreakB # post) = Inr zs"
    and fl: "flow g (initial g) 0 zs = Inr s4"
    and r: "pages r = view s4"
    by (auto simp: paginate_def aw_def pages_view split: sum.splits)
  from layout_all_append [OF la] obtain zs1 zs2 where
    zs: "zs = zs1 @ zs2" and len: "length zs1 = i"
    and l2: "layout_all m aw i (PageBreakB # post) = Inr zs2"
    by (auto simp: i_def)
  from l2 obtain zs3 where zs2: "zs2 = Break # zs3"
    and l3: "layout_all m aw (Suc i) post = Inr zs3"
    by (auto split: option.splits sum.splits)
  from flow_append [of g "initial g" 0 zs1 zs2 s4] fl zs obtain s1 where
    f1: "flow g (initial g) 0 zs1 = Inr s1"
    and f2: "flow g s1 i zs2 = Inr s4"
    by (auto simp: len)
  define box where
    "box = \<lparr>pb_x = 0, pb_y = content_height g - remaining_height s1,
            pb_width = available_width g, pb_height = 0, pb_block = i, pb_part = Whole\<rparr>"
  define s2 where "s2 = close_page g (place g s1 i Whole 0)"
  define p where
    "p = \<lparr>pg_index = current_page_index s1, pg_boxes = current_boxes s1 @ [box]\<rparr>"
  from f2 zs2 have f3: "flow g s2 (Suc i) zs3 = Inr s4"
    by (simp add: s2_def)
  have b1: "bounded i s1"
    using bounded_flow [OF f1 bounded_initial] by (simp add: len)
  have fin2: "finished s2 = finished s1 @ [p]"
    by (simp add: s2_def close_page_def place_def box_def p_def)
  have fresh2: "fresh g s2"
    unfolding s2_def by (rule fresh_close)
  have "view s2 = finished s2 @ [\<lparr>pg_index = current_page_index s2, pg_boxes = []\<rparr>]"
    using fresh2 by (simp add: view_def fresh_def)
  with extends_flow [OF f3] obtain bx rest0 where
    "view s4 = finished s2 @ \<lparr>pg_index = current_page_index s2, pg_boxes = bx\<rparr> # rest0"
    unfolding extends_def by auto
  then obtain rest where pg: "pages r = finished s1 @ p # rest" and ne: "rest \<noteq> []"
    using r fin2 by simp
  have ps: "\<forall>x \<in> set (finished s1). \<forall>bx \<in> set (pg_boxes x). pb_block bx < i"
    and cur: "\<forall>bx \<in> set (current_boxes s1). pb_block bx < i"
    using b1 by (simp_all add: bounded_def)
  have pp: "pg_boxes p \<noteq> []" "pb_block (last (pg_boxes p)) = i"
    "pb_height (last (pg_boxes p)) = 0"
    "\<forall>bx \<in> set (butlast (pg_boxes p)). pb_block bx < i"
    using cur by (simp_all add: box_def p_def)
  have nxt: "\<exists>mid nq bq qs.
                 rest = mid @ \<lparr>pg_index = nq, pg_boxes = bq\<rparr> # qs
               \<and> (\<forall>x \<in> set mid. pg_boxes x = [])
               \<and> bq \<noteq> [] \<and> pb_block (hd bq) = Suc i \<and> pb_y (hd bq) = 0"
    if "post \<noteq> []"
  proof -
    from that l3 obtain zb zs4 where zs3: "zs3 = zb # zs4"
      by (cases post) (auto split: option.splits sum.splits)
    with f3 obtain s3 where
      st: "flow_step g s2 (Suc i) zb = Inr s3"
      and f4: "flow g s3 (Suc (Suc i)) zs4 = Inr s4"
      by (auto split: sum.splits)
    have "starts_page (finished s2) (Suc i) (view s3)"
      using fresh2 st by (rule starts_step)
    then have "starts_page (finished s2) (Suc i) (view s4)"
      using extends_flow [OF f4] by (rule starts_extends)
    then obtain mid nq bq qs where
      v: "view s4 = finished s2 @ mid @ \<lparr>pg_index = nq, pg_boxes = bq\<rparr> # qs"
      and mid: "\<forall>x \<in> set mid. pg_boxes x = []"
      and q: "bq \<noteq> []" "pb_block (hd bq) = Suc i" "pb_y (hd bq) = 0"
      unfolding starts_page_def by blast
    from v pg r fin2 have "rest = mid @ \<lparr>pg_index = nq, pg_boxes = bq\<rparr> # qs"
      by simp
    with mid q show ?thesis by blast
  qed
  have "\<exists>ps np bp rest.
           pages r = ps @ \<lparr>pg_index = np, pg_boxes = bp\<rparr> # rest
         \<and> rest \<noteq> []
         \<and> (\<forall>x \<in> set ps. \<forall>bx \<in> set (pg_boxes x). pb_block bx < i)
         \<and> bp \<noteq> [] \<and> pb_block (last bp) = i \<and> pb_height (last bp) = 0
         \<and> (\<forall>bx \<in> set (butlast bp). pb_block bx < i)
         \<and> (post \<noteq> [] \<longrightarrow>
              (\<exists>mid nq bq qs.
                 rest = mid @ \<lparr>pg_index = nq, pg_boxes = bq\<rparr> # qs
               \<and> (\<forall>x \<in> set mid. pg_boxes x = [])
               \<and> bq \<noteq> [] \<and> pb_block (hd bq) = Suc i \<and> pb_y (hd bq) = 0))"
  proof (intro exI conjI)
    show "pages r = finished s1 @ \<lparr>pg_index = pg_index p, pg_boxes = pg_boxes p\<rparr> # rest"
      using pg by simp
  qed (use ne ps pp nxt in auto)
  then show ?thesis
    by (simp add: i_def)
qed

theorem page_break_starts_new_page_witness:
  "paginate example_metrics example_geometry ([SpacerB 10] @ PageBreakB # [SpacerB 20])
     = Inr \<lparr>pages =
         [\<lparr>pg_index = 1, pg_boxes =
             [\<lparr>pb_x = 0, pb_y = 0, pb_width = 400, pb_height = 10, pb_block = 0, pb_part = Whole\<rparr>,
              \<lparr>pb_x = 0, pb_y = 10, pb_width = 400, pb_height = 0, pb_block = 1, pb_part = Whole\<rparr>]\<rparr>,
          \<lparr>pg_index = 2, pg_boxes =
             [\<lparr>pb_x = 0, pb_y = 0, pb_width = 400, pb_height = 20, pb_block = 2, pb_part = Whole\<rparr>]\<rparr>],
        warnings = []\<rparr>
   \<and> [SpacerB 20] \<noteq> []
   \<and> block_height example_metrics (available_width example_geometry) PageBreakB = Some 0"
proof -
  have ev: "paginate example_metrics example_geometry ([SpacerB 10] @ PageBreakB # [SpacerB 20])
     = Inr \<lparr>pages =
         [\<lparr>pg_index = 1, pg_boxes =
             [\<lparr>pb_x = 0, pb_y = 0, pb_width = 400, pb_height = 10, pb_block = 0, pb_part = Whole\<rparr>,
              \<lparr>pb_x = 0, pb_y = 10, pb_width = 400, pb_height = 0, pb_block = 1, pb_part = Whole\<rparr>]\<rparr>,
          \<lparr>pg_index = 2, pg_boxes =
             [\<lparr>pb_x = 0, pb_y = 0, pb_width = 400, pb_height = 20, pb_block = 2, pb_part = Whole\<rparr>]\<rparr>],
        warnings = []\<rparr>"
    by (simp add: paginate_def initial_def place_def close_page_def content_height_def
        available_width_def example_geometry_def example_metrics_def)
  from page_break_starts_new_page [OF ev] ev show ?thesis
    by blast
qed

end
